theory Spec2Isabelle
  imports Main "HOL-Library.Sublist" "HOL-Library.Multiset" "HOL-Library.Product_Lexorder"
begin

section \<open>The task manager of \<^verbatim>\<open>final_project/todo.py\<close>\<close>

text \<open>
  The development embeds the task store (\<^verbatim>\<open>Task\<close>, \<^verbatim>\<open>Tasks\<close>), the display sorter
  (\<^verbatim>\<open>_sort_open\<close>) and the due-date parser (\<^verbatim>\<open>parse_due\<close>) of \<^verbatim>\<open>todo.py\<close>.
  Mutation is explicit state passing, exceptions are values of a sum type, the clock
  (\<^verbatim>\<open>datetime.now()\<close>) and the outcome of each file-system call are parameters.
\<close>

subsection \<open>Dates and times\<close>

text \<open>
  A naive \<^verbatim>\<open>datetime\<close>. The calendar date is kept as its proleptic Gregorian ordinal
  (\<^verbatim>\<open>toordinal()\<close>, day 1 is 0001-01-01, a Monday), which orders dates as year, month and
  day do. Python compares two naive datetimes field by field, that is by \<open>dt_key\<close> in the
  lexicographic order of tuples.
\<close>

record datetime =
  ordinal :: int
  hour :: int
  minute :: int
  second :: int
  microsecond :: int

definition dt_key :: "datetime \<Rightarrow> int \<times> int \<times> int \<times> int \<times> int" where
  "dt_key d = (ordinal d, hour d, minute d, second d, microsecond d)"

text \<open>\<^verbatim>\<open>a <= b\<close> and \<^verbatim>\<open>a >= b\<close> on datetimes.\<close>

definition dt_le :: "datetime \<Rightarrow> datetime \<Rightarrow> bool" where
  "dt_le a b = (dt_key a \<le> dt_key b)"

definition dt_ge :: "datetime \<Rightarrow> datetime \<Rightarrow> bool" where
  "dt_ge a b = (dt_key b \<le> dt_key a)"

text \<open>\<^verbatim>\<open>date.max.toordinal()\<close>, the ordinal of 9999-12-31.\<close>

definition MAXORDINAL :: int where
  "MAXORDINAL = 3652059"

datatype error = ValueError string | OverflowError | OSError

text \<open>
  \<^verbatim>\<open>now + timedelta(days=n)\<close>: the time of day is kept, and a date outside years 1..9999
  raises \<^verbatim>\<open>OverflowError\<close>.
\<close>

definition add_days :: "datetime \<Rightarrow> int \<Rightarrow> error + datetime" where
  "add_days d n =
     (let k = ordinal d + n
      in if 0 < k \<and> k \<le> MAXORDINAL then Inr (d\<lparr>ordinal := k\<rparr>) else Inl OverflowError)"

text \<open>\<^verbatim>\<open>datetime.weekday()\<close>: Monday is 0, Sunday is 6.\<close>

definition weekday :: "datetime \<Rightarrow> int" where
  "weekday d = (ordinal d + 6) mod 7"

text \<open>\<^verbatim>\<open>d.replace(hour=23, minute=59, second=59, microsecond=0)\<close>.\<close>

definition end_of_day :: "datetime \<Rightarrow> datetime" where
  "end_of_day d = d\<lparr>hour := 23, minute := 59, second := 59, microsecond := 0\<rparr>"

subsection \<open>Strings\<close>

text \<open>
  A string is the list of its code points, each below 256 (the Latin-1 range, which the
  8-bit type \<open>char\<close> holds). There \<^verbatim>\<open>str.lower()\<close> works character by character: it adds 32 to
  the code points 65..90 (\<^verbatim>\<open>A\<close>..\<^verbatim>\<open>Z\<close>) and 192..222 except 215 (the accented capitals; 215
  is the multiplication sign) and leaves every other one. \<^verbatim>\<open>str.strip()\<close> removes leading and
  trailing white space: the code points 9..13, 28..32, 133 and 160. \<^verbatim>\<open>x in y\<close> on strings
  holds when \<open>x\<close> is a contiguous part of \<open>y\<close>.
\<close>

definition lower_char :: "char \<Rightarrow> char" where
  "lower_char c =
     (let n = (of_char c :: nat)
      in if (65 \<le> n \<and> n \<le> 90) \<or> (192 \<le> n \<and> n \<le> 222 \<and> n \<noteq> 215)
         then char_of (n + 32) else c)"

definition lower :: "string \<Rightarrow> string" where
  "lower s = map lower_char s"

definition is_space :: "char \<Rightarrow> bool" where
  "is_space c = ((of_char c :: nat) \<in> {9, 10, 11, 12, 13, 28, 29, 30, 31, 32, 133, 160})"

definition strip :: "string \<Rightarrow> string" where
  "strip s = rev (dropWhile is_space (rev (dropWhile is_space s)))"

definition str_in :: "string \<Rightarrow> string \<Rightarrow> bool" where
  "str_in x y = sublist x y"

subsection \<open>Tasks\<close>

record task =
  created :: datetime
  completed :: "datetime option"
  name :: string
  unique_id :: int
  priority :: int
  due_date :: "datetime option"

text \<open>
  \<^verbatim>\<open>Task.__init__\<close>: reads the clock, takes the class counter \<^verbatim>\<open>Task._id_counter\<close> as its
  identifier and increments the counter. The new task and the new counter are returned.
\<close>

definition Task_init :: "datetime \<Rightarrow> string \<Rightarrow> int \<Rightarrow> datetime option \<Rightarrow> int \<Rightarrow> task \<times> int" where
  "Task_init now nm pr due counter =
     (\<lparr>created = now, completed = None, name = nm, unique_id = counter,
       priority = (if pr \<in> {1, 2, 3} then pr else 1), due_date = due\<rparr>,
      counter + 1)"

definition mark_completed :: "datetime \<Rightarrow> task \<Rightarrow> task" where
  "mark_completed now t = t\<lparr>completed := Some now\<rparr>"

subsection \<open>The store\<close>

text \<open>
  What the file at \<^verbatim>\<open>self.filepath\<close> holds: nothing, bytes on which \<^verbatim>\<open>pickle.load\<close> or the
  unpacking of its result raises, or the pair written by \<^verbatim>\<open>pickle_tasks\<close>.
\<close>

datatype disk = NoFile | Unreadable | Pickled "task list" int

text \<open>
  The state of a process: the list \<^verbatim>\<open>self.tasks\<close>, the class attribute
  \<^verbatim>\<open>Task._id_counter\<close> (one per process, 1 when the module is loaded) and the file.
\<close>

record state =
  tasks :: "task list"
  id_counter :: int
  disk :: disk

text \<open>\<^verbatim>\<open>max(xs, default=d)\<close>.\<close>

fun max_default :: "int list \<Rightarrow> int \<Rightarrow> int" where
  "max_default [] d = d"
| "max_default (x # xs) d = fold max xs x"

text \<open>The key of \<^verbatim>\<open>self.tasks.sort(key=lambda t: t.created)\<close>; \<^verbatim>\<open>list.sort\<close> is stable.\<close>

definition created_key :: "task \<Rightarrow> int \<times> int \<times> int \<times> int \<times> int" where
  "created_key t = dt_key (created t)"

text \<open>
  \<^verbatim>\<open>pickle_tasks\<close>: \<open>io_ok\<close> tells whether \<^verbatim>\<open>os.makedirs\<close>, the write of the temporary file
  and \<^verbatim>\<open>os.replace\<close> all succeed. When one of them raises, the file at \<^verbatim>\<open>filepath\<close> is as
  before (\<^verbatim>\<open>_atomic_dump\<close> replaces it only as its last step).
\<close>

definition pickle_tasks :: "bool \<Rightarrow> state \<Rightarrow> (error + unit) \<times> state" where
  "pickle_tasks io_ok s =
     (let last_id = max_default (map unique_id (tasks s)) 0
      in if io_ok then (Inr (), s\<lparr>disk := Pickled (tasks s) last_id\<rparr>) else (Inl OSError, s))"

definition load :: "state \<Rightarrow> state" where
  "load s =
     (case disk s of
        NoFile \<Rightarrow> s\<lparr>tasks := []\<rparr>
      | Unreadable \<Rightarrow> s\<lparr>tasks := []\<rparr>
      | Pickled ts last_id \<Rightarrow>
          s\<lparr>tasks := sort_key created_key ts, id_counter := max (id_counter s) (last_id + 1)\<rparr>)"

text \<open>\<^verbatim>\<open>Tasks.__init__\<close> in a process whose counter is \<open>counter\<close>, on the file \<open>d\<close>.\<close>

definition Tasks_init :: "int \<Rightarrow> disk \<Rightarrow> state" where
  "Tasks_init counter d = load \<lparr>tasks = [], id_counter = counter, disk = d\<rparr>"

text \<open>A new process: the module is loaded (\<^verbatim>\<open>_id_counter = 1\<close>), then \<^verbatim>\<open>Tasks()\<close>.\<close>

definition start_process :: "disk \<Rightarrow> state" where
  "start_process d = Tasks_init 1 d"

text \<open>
  Normal exit of the process: the hook registered by \<^verbatim>\<open>atexit.register(self.pickle_tasks)\<close>
  runs; what is left is the file.
\<close>

definition exit_process :: "bool \<Rightarrow> state \<Rightarrow> disk" where
  "exit_process io_ok s = disk (snd (pickle_tasks io_ok s))"

definition add :: "bool \<Rightarrow> datetime \<Rightarrow> string \<Rightarrow> int \<Rightarrow> datetime option \<Rightarrow> state \<Rightarrow> (error + task) \<times> state" where
  "add io_ok now nm pr due s =
     (let (t, c) = Task_init now nm pr due (id_counter s);
          s1 = s\<lparr>tasks := sort_key created_key (tasks s @ [t]), id_counter := c\<rparr>
      in case pickle_tasks io_ok s1 of
           (Inl e, s2) \<Rightarrow> (Inl e, s2)
         | (Inr _, s2) \<Rightarrow> (Inr t, s2))"

text \<open>
  The loop of \<^verbatim>\<open>delete\<close>: the first task with the identifier is removed; \<open>None\<close> when the
  loop ends without a match.
\<close>

fun delete_first :: "int \<Rightarrow> task list \<Rightarrow> task list option" where
  "delete_first i [] = None"
| "delete_first i (t # ts) =
     (if unique_id t = i then Some ts else map_option ((#) t) (delete_first i ts))"

definition delete :: "bool \<Rightarrow> int \<Rightarrow> state \<Rightarrow> (error + bool) \<times> state" where
  "delete io_ok i s =
     (case delete_first i (tasks s) of
        None \<Rightarrow> (Inr False, s)
      | Some ts \<Rightarrow>
          (case pickle_tasks io_ok (s\<lparr>tasks := ts\<rparr>) of
             (Inl e, s2) \<Rightarrow> (Inl e, s2)
           | (Inr _, s2) \<Rightarrow> (Inr True, s2)))"

text \<open>
  The loop of \<^verbatim>\<open>done\<close>: at the first task with the identifier the loop returns; \<open>None\<close> when
  no task has it, otherwise whether the task was marked and the list afterwards.
\<close>

fun done_first :: "datetime \<Rightarrow> int \<Rightarrow> task list \<Rightarrow> (bool \<times> task list) option" where
  "done_first now i [] = None"
| "done_first now i (t # ts) =
     (if unique_id t = i
      then (if completed t = None then Some (True, mark_completed now t # ts)
            else Some (False, t # ts))
      else map_option (\<lambda>(m, ts'). (m, t # ts')) (done_first now i ts))"

definition done_task :: "bool \<Rightarrow> datetime \<Rightarrow> int \<Rightarrow> state \<Rightarrow> (error + bool) \<times> state" where
  "done_task io_ok now i s =
     (case done_first now i (tasks s) of
        None \<Rightarrow> (Inr False, s)
      | Some (False, ts) \<Rightarrow> (Inr True, s)
      | Some (True, ts) \<Rightarrow>
          (case pickle_tasks io_ok (s\<lparr>tasks := ts\<rparr>) of
             (Inl e, s2) \<Rightarrow> (Inl e, s2)
           | (Inr _, s2) \<Rightarrow> (Inr True, s2)))"

text \<open>The file holds what \<^verbatim>\<open>pickle_tasks\<close> writes for the collection now in memory.\<close>

definition saved :: "state \<Rightarrow> bool" where
  "saved s = (disk s = Pickled (tasks s) (max_default (map unique_id (tasks s)) 0))"

definition list_tasks :: "bool \<Rightarrow> state \<Rightarrow> task list" where
  "list_tasks include_completed s =
     (if include_completed then tasks s else filter (\<lambda>t. completed t = None) (tasks s))"

text \<open>
  \<^verbatim>\<open>query\<close>: each \<^verbatim>\<open>if\<close> of the body wraps the previous \<^verbatim>\<open>results\<close> in one more filter; the
  five definitions below are these five \<^verbatim>\<open>if\<close> statements, in the order of the source.
  \<^verbatim>\<open>if texts:\<close> is false for \<^verbatim>\<open>None\<close> and for the empty list; a datetime is always true.
\<close>

definition query_texts :: "string list option \<Rightarrow> task list \<Rightarrow> task list" where
  "query_texts texts results =
     (case texts of
        None \<Rightarrow> results
      | Some [] \<Rightarrow> results
      | Some (x # xs) \<Rightarrow>
          (let lowers = map lower (x # xs)
           in filter (\<lambda>t. list_ex (\<lambda>l. str_in l (lower (name t))) lowers) results))"

definition query_priority :: "int option \<Rightarrow> task list \<Rightarrow> task list" where
  "query_priority pr results =
     (case pr of
        None \<Rightarrow> results
      | Some p \<Rightarrow> if p \<in> {1, 2, 3} then filter (\<lambda>t. priority t = p) results else results)"

definition query_due_before :: "datetime option \<Rightarrow> task list \<Rightarrow> task list" where
  "query_due_before due_before results =
     (case due_before of
        None \<Rightarrow> results
      | Some b \<Rightarrow>
          filter (\<lambda>t. case due_date t of None \<Rightarrow> False | Some d \<Rightarrow> dt_le d b) results)"

definition query_due_after :: "datetime option \<Rightarrow> task list \<Rightarrow> task list" where
  "query_due_after due_after results =
     (case due_after of
        None \<Rightarrow> results
      | Some a \<Rightarrow>
          filter (\<lambda>t. case due_date t of None \<Rightarrow> False | Some d \<Rightarrow> dt_ge d a) results)"

definition query_completed :: "bool option \<Rightarrow> task list \<Rightarrow> task list" where
  "query_completed compl results =
     (case compl of
        None \<Rightarrow> results
      | Some c \<Rightarrow> filter (\<lambda>t. (completed t \<noteq> None) = c) results)"

definition query ::
  "string list option \<Rightarrow> int option \<Rightarrow> datetime option \<Rightarrow> datetime option \<Rightarrow> bool option
     \<Rightarrow> state \<Rightarrow> task list" where
  "query texts pr due_before due_after compl s =
     query_completed compl
       (query_due_after due_after
         (query_due_before due_before
           (query_priority pr
             (query_texts texts (tasks s)))))"

text \<open>
  \<open>x\<close> occurs in \<open>y\<close> up to letter case: some contiguous part of \<open>y\<close> has the length of \<open>x\<close>
  and agrees with it character by character once both are lowered.
\<close>

definition occurs_ignoring_case :: "string \<Rightarrow> string \<Rightarrow> bool" where
  "occurs_ignoring_case x y =
     (\<exists>ps u ss. y = ps @ u @ ss \<and> list_all2 (\<lambda>a b. lower_char a = lower_char b) u x)"

text \<open>
  The conjunction of the filters of a query, as a predicate on one task. In
  \<open>query_filter_any\<close> a list of texts, when given, is matched by a task in which one of the
  texts occurs, so that the empty list is matched by no task; in \<open>query_filter\<close> the empty
  list is no constraint, like an absent one.
\<close>

definition query_filter_any ::
  "string list option \<Rightarrow> int option \<Rightarrow> datetime option \<Rightarrow> datetime option \<Rightarrow> bool option
     \<Rightarrow> task \<Rightarrow> bool" where
  "query_filter_any texts pr due_before due_after compl t =
     ((case texts of None \<Rightarrow> True
       | Some xs \<Rightarrow> (\<exists>x\<in>set xs. occurs_ignoring_case x (name t)))
      \<and> (case pr of None \<Rightarrow> True | Some p \<Rightarrow> p \<in> {1, 2, 3} \<longrightarrow> priority t = p)
      \<and> (case due_before of None \<Rightarrow> True | Some b \<Rightarrow> (\<exists>d. due_date t = Some d \<and> dt_le d b))
      \<and> (case due_after of None \<Rightarrow> True | Some a \<Rightarrow> (\<exists>d. due_date t = Some d \<and> dt_ge d a))
      \<and> (case compl of None \<Rightarrow> True | Some c \<Rightarrow> (completed t \<noteq> None) = c))"

definition query_filter ::
  "string list option \<Rightarrow> int option \<Rightarrow> datetime option \<Rightarrow> datetime option \<Rightarrow> bool option
     \<Rightarrow> task \<Rightarrow> bool" where
  "query_filter texts pr due_before due_after compl t =
     ((case texts of None \<Rightarrow> True
       | Some xs \<Rightarrow> xs = [] \<or> (\<exists>x\<in>set xs. occurs_ignoring_case x (name t)))
      \<and> (case pr of None \<Rightarrow> True | Some p \<Rightarrow> p \<in> {1, 2, 3} \<longrightarrow> priority t = p)
      \<and> (case due_before of None \<Rightarrow> True | Some b \<Rightarrow> (\<exists>d. due_date t = Some d \<and> dt_le d b))
      \<and> (case due_after of None \<Rightarrow> True | Some a \<Rightarrow> (\<exists>d. due_date t = Some d \<and> dt_ge d a))
      \<and> (case compl of None \<Rightarrow> True | Some c \<Rightarrow> (completed t \<noteq> None) = c))"

text \<open>
  \<^verbatim>\<open>reset\<close>: \<open>io_ok\<close> tells whether \<^verbatim>\<open>os.remove\<close> succeeds; the two assignments come before
  it.
\<close>

definition reset :: "bool \<Rightarrow> state \<Rightarrow> (error + unit) \<times> state" where
  "reset io_ok s =
     (let s1 = s\<lparr>tasks := [], id_counter := 1\<rparr>
      in if disk s1 = NoFile then (Inr (), s1)
         else if io_ok then (Inr (), s1\<lparr>disk := NoFile\<rparr>)
         else (Inl OSError, s1))"

subsection \<open>Sorting for display\<close>

text \<open>The keys of the two \<^verbatim>\<open>sort\<close> calls of \<^verbatim>\<open>_sort_open\<close>; Python compares tuples lexicographically.\<close>

definition due_key :: "task \<Rightarrow> (int \<times> int \<times> int \<times> int \<times> int) \<times> int \<times> (int \<times> int \<times> int \<times> int \<times> int)" where
  "due_key t = (dt_key (the (due_date t)), priority t, dt_key (created t))"

definition nodue_key :: "task \<Rightarrow> int \<times> (int \<times> int \<times> int \<times> int \<times> int)" where
  "nodue_key t = (priority t, dt_key (created t))"

definition sort_open :: "task list \<Rightarrow> task list" where
  "sort_open ts =
     (let with_due = filter (\<lambda>t. due_date t \<noteq> None) ts;
          without_due = filter (\<lambda>t. \<not> due_date t \<noteq> None) ts
      in sort_key due_key with_due @ sort_key nodue_key without_due)"

text \<open>
  The two orders of the display, written out: by due date, then priority, then creation
  time, and by priority, then creation time.
\<close>

definition due_order :: "task \<Rightarrow> task \<Rightarrow> bool" where
  "due_order t u =
     (dt_key (the (due_date t)) < dt_key (the (due_date u))
      \<or> (dt_key (the (due_date t)) = dt_key (the (due_date u))
         \<and> (priority t < priority u
            \<or> (priority t = priority u \<and> dt_key (created t) \<le> dt_key (created u)))))"

definition nodue_order :: "task \<Rightarrow> task \<Rightarrow> bool" where
  "nodue_order t u =
     (priority t < priority u
      \<or> (priority t = priority u \<and> dt_key (created t) \<le> dt_key (created u)))"

subsection \<open>Parsing a due date\<close>

definition no_date_tokens :: "string list" where
  "no_date_tokens = [''none'', ''no'', ''na'', ''n/a'', ''-'']"

definition weekdays :: "string list" where
  "weekdays = [''monday'', ''tuesday'', ''wednesday'', ''thursday'', ''friday'', ''saturday'', ''sunday'']"

definition fmts :: "string list" where
  "fmts = [''%m/%d/%Y'', ''%m/%d/%y'', ''%Y-%m-%d'']"

text \<open>\<^verbatim>\<open>xs.index(x)\<close> for an \<open>x\<close> that is in \<open>xs\<close>.\<close>

fun index_of :: "'a \<Rightarrow> 'a list \<Rightarrow> int" where
  "index_of x [] = 0"
| "index_of x (y # ys) = (if x = y then 0 else 1 + index_of x ys)"

text \<open>
  The loop over the formats. \<open>strptime raw fmt\<close> stands for the standard library's
  \<^verbatim>\<open>datetime.strptime(raw, fmt)\<close>, \<open>None\<close> when it raises \<^verbatim>\<open>ValueError\<close>. The error raised after
  the loop has the message \<^verbatim>\<open>f"Unrecognized due date: {raw!r}"\<close>; the model keeps \<open>raw\<close>.
\<close>

fun try_formats :: "(string \<Rightarrow> string \<Rightarrow> datetime option) \<Rightarrow> string \<Rightarrow> string list \<Rightarrow> error + datetime option" where
  "try_formats strptime raw [] = Inl (ValueError raw)"
| "try_formats strptime raw (fmt # rest) =
     (case strptime raw fmt of
        Some d \<Rightarrow> Inr (Some d)
      | None \<Rightarrow> try_formats strptime raw rest)"

definition parse_due ::
  "(string \<Rightarrow> string \<Rightarrow> datetime option) \<Rightarrow> datetime \<Rightarrow> string option \<Rightarrow> error + datetime option" where
  "parse_due strptime now raw =
     (case raw of
        None \<Rightarrow> Inr None
      | Some r \<Rightarrow>
          if r = [] then Inr None
          else
            (let s = lower (strip r)
             in if s \<in> set no_date_tokens then Inr None
                else if s = ''today'' then Inr (Some (end_of_day now))
                else if s = ''tomorrow'' then
                  (case add_days now 1 of
                     Inl e \<Rightarrow> Inl e
                   | Inr d \<Rightarrow> Inr (Some (end_of_day d)))
                else if s \<in> set weekdays then
                  (let target = index_of s weekdays;
                       delta = (target - weekday now) mod 7;
                       delta = (if delta = 0 then 7 else delta)
                   in case add_days now delta of
                        Inl e \<Rightarrow> Inl e
                      | Inr d \<Rightarrow> Inr (Some (end_of_day d)))
                else try_formats strptime r fmts))"

subsection \<open>Sequences of calls\<close>

text \<open>
  A caller's sequence of \<^verbatim>\<open>add\<close> and \<^verbatim>\<open>delete\<close> calls in one process, each with the outcome of
  its write, and what the sequence does to identifiers: \<open>Assigned i\<close> for an identifier that
  a call to \<^verbatim>\<open>add\<close> brought into the collection, \<open>Removed i\<close> for a call to \<^verbatim>\<open>delete\<close> that found
  a task with identifier \<open>i\<close> (it returned true, or raised after removing the task).
\<close>

datatype call = Add bool datetime string int "datetime option" | Delete bool int

datatype event = Assigned int | Removed int

definition new_ids :: "state \<Rightarrow> state \<Rightarrow> int list" where
  "new_ids s s' = filter (\<lambda>i. i \<notin> set (map unique_id (tasks s))) (map unique_id (tasks s'))"

fun run :: "call list \<Rightarrow> state \<Rightarrow> event list" where
  "run [] s = []"
| "run (Add io now nm pr due # cs) s =
     (let s' = snd (add io now nm pr due s)
      in map Assigned (new_ids s s') @ run cs s')"
| "run (Delete io i # cs) s =
     (let (r, s') = delete io i s
      in (if r = Inr False then [] else [Removed i]) @ run cs s')"

fun assigned :: "event list \<Rightarrow> int list" where
  "assigned [] = []"
| "assigned (Assigned i # es) = i # assigned es"
| "assigned (Removed i # es) = assigned es"

fun is_Add :: "call \<Rightarrow> bool" where
  "is_Add (Add io now nm pr due) = True"
| "is_Add (Delete io i) = False"

text \<open>Every task in the collection has an identifier below the counter.\<close>

definition ids_below_counter :: "state \<Rightarrow> bool" where
  "ids_below_counter s = list_all (\<lambda>t. unique_id t < id_counter s) (tasks s)"

subsection \<open>Sample data\<close>

text \<open>
  Concrete clock readings, tasks and stores at which the theorems below are instantiated.
  Ordinal 738886 is 2024-01-01, a Monday. The name of \<open>cafe\<close> ends in code point 201, the
  capital E with acute accent, whose lower-case form is code point 233; \<open>padded_monday\<close> is
  a weekday name between a no-break space and a next-line character.
\<close>

definition monday_morning :: datetime where
  "monday_morning = \<lparr>ordinal = 738886, hour = 9, minute = 30, second = 0, microsecond = 0\<rparr>"

definition monday_noon :: datetime where
  "monday_noon = \<lparr>ordinal = 738886, hour = 12, minute = 0, second = 0, microsecond = 0\<rparr>"

definition mid_january :: datetime where
  "mid_january = \<lparr>ordinal = 738900, hour = 0, minute = 0, second = 0, microsecond = 0\<rparr>"

definition milk :: task where
  "milk = \<lparr>created = monday_morning, completed = None, name = ''Buy milk'', unique_id = 1,
            priority = 2, due_date = Some mid_january\<rparr>"

definition call_mom :: task where
  "call_mom = \<lparr>created = monday_noon, completed = None, name = ''Call mom'', unique_id = 2,
                priority = 1, due_date = None\<rparr>"

definition pay_rent :: task where
  "pay_rent = \<lparr>created = monday_noon, completed = None, name = ''Pay rent'', unique_id = 3,
                priority = 3, due_date = Some monday_noon\<rparr>"

definition padded_monday :: string where
  "padded_monday = CHR 0xA0 # ''Monday'' @ [CHR 0x85]"

definition cafe :: task where
  "cafe = \<lparr>created = monday_noon, completed = None, name = ''CAF'' @ [CHR 0xC9], unique_id = 4,
           priority = 1, due_date = None\<rparr>"

definition milk_store :: state where
  "milk_store = \<lparr>tasks = [milk], id_counter = 2, disk = Pickled [milk] 1\<rparr>"

text \<open>
  The store after \<^verbatim>\<open>add("Call mom")\<close>, which gets identifier 2, and \<^verbatim>\<open>delete(2)\<close>, both
  persisted, starting from \<open>milk_store\<close>.
\<close>

definition after_delete :: state where
  "after_delete = snd (delete True 2 (snd (add True monday_noon ''Call mom'' 1 None milk_store)))"

text \<open>
  A stand-in for \<^verbatim>\<open>datetime.strptime\<close> that accepts one ISO date and rejects every other
  input, used to instantiate the parser's theorems.
\<close>

definition sample_strptime :: "string \<Rightarrow> string \<Rightarrow> datetime option" where
  "sample_strptime x f = (if x = ''2024-01-15'' \<and> f = ''%Y-%m-%d'' then Some mid_january else None)"

section \<open>Properties\<close>

subsection \<open>The filters of \<^verbatim>\<open>query\<close>\<close>

lemma query_texts_filter:
  "query_texts tx r =
     filter (\<lambda>t. case tx of None \<Rightarrow> True
                 | Some ts \<Rightarrow> ts = [] \<or> list_ex (\<lambda>l. str_in l (lower (name t))) (map lower ts)) r"
  by (cases tx) (auto simp: query_texts_def split: list.split)

lemma query_priority_filter:
  "query_priority p r =
     filter (\<lambda>t. case p of None \<Rightarrow> True | Some q \<Rightarrow> q \<in> {1, 2, 3} \<longrightarrow> priority t = q) r"
  by (cases p) (auto simp: query_priority_def)

lemma query_due_before_filter:
  "query_due_before db r =
     filter (\<lambda>t. case db of None \<Rightarrow> True | Some b \<Rightarrow> (\<exists>d. due_date t = Some d \<and> dt_le d b)) r"
  by (cases db) (auto simp: query_due_before_def split: option.split intro!: filter_cong)

lemma query_due_after_filter:
  "query_due_after da r =
     filter (\<lambda>t. case da of None \<Rightarrow> True | Some a \<Rightarrow> (\<exists>d. due_date t = Some d \<and> dt_ge d a)) r"
  by (cases da) (auto simp: query_due_after_def split: option.split intro!: filter_cong)

lemma query_completed_filter:
  "query_completed c r =
     filter (\<lambda>t. case c of None \<Rightarrow> True | Some b \<Rightarrow> (completed t \<noteq> None) = b) r"
  by (cases c) (auto simp: query_completed_def)

lemma query_stage_None:
  "query_texts None r = r" "query_priority None r = r" "query_due_before None r = r"
  "query_due_after None r = r" "query_completed None r = r"
  by (simp_all add: query_texts_def query_priority_def query_completed_def
      query_due_before_def query_due_after_def)

text \<open>
  Claim C10. The due-date bounds of \<^verbatim>\<open>query\<close> are inclusive. For a task \<open>t\<close> of the store
  whose due date \<open>dd\<close> is present and a threshold \<open>d\<close>: \<^verbatim>\<open>query(due_before=d)\<close> returns \<open>t\<close>
  exactly when \<open>dd \<le> d\<close>, \<^verbatim>\<open>query(due_after=d)\<close> exactly when \<open>dd \<ge> d\<close>; with further
  filters given, the bound adds exactly this condition to them; and a task due at \<open>d\<close>
  itself is returned by both.
\<close>

theorem query_due_bounds_inclusive:
  assumes "due_date t = Some dd" and "t \<in> set (tasks s)"
  shows "((t \<in> set (query None None (Some d) None None s)) = dt_le dd d)
       \<and> ((t \<in> set (query None None None (Some d) None s)) = dt_ge dd d)
       \<and> ((t \<in> set (query tx p (Some d) da c s)) = (t \<in> set (query tx p None da c s) \<and> dt_le dd d))
       \<and> ((t \<in> set (query tx p db (Some d) c s)) = (t \<in> set (query tx p db None c s) \<and> dt_ge dd d))
       \<and> (dd = d \<longrightarrow> t \<in> set (query None None (Some d) None None s)
                    \<and> t \<in> set (query None None None (Some d) None s))"
proof -
  have le: "dt_le d d" and ge: "dt_ge d d"
    by (simp_all add: dt_le_def dt_ge_def)
  have b: "(t \<in> set (query_due_before (Some d) r)) = (t \<in> set r \<and> dt_le dd d)" for r
    using assms(1) by (simp add: query_due_before_filter)
  have a: "(t \<in> set (query_due_after (Some d) r)) = (t \<in> set r \<and> dt_ge dd d)" for r
    using assms(1) by (simp add: query_due_after_filter)
  have 1: "(t \<in> set (query None None (Some d) None None s)) = dt_le dd d"
    using assms(2) by (simp add: query_def query_stage_None b)
  have 2: "(t \<in> set (query None None None (Some d) None s)) = dt_ge dd d"
    using assms(2) by (simp add: query_def query_stage_None a)
  have 3: "(t \<in> set (query tx p (Some d) da c s))
             = (t \<in> set (query tx p None da c s) \<and> dt_le dd d)"
    using assms(1)
    by (auto simp: query_def query_stage_None query_due_before_filter query_due_after_filter
        query_completed_def split: option.splits)
  have 4: "(t \<in> set (query tx p db (Some d) c s))
             = (t \<in> set (query tx p db None c s) \<and> dt_ge dd d)"
    using assms(1)
    by (auto simp: query_def query_stage_None query_due_after_filter query_completed_def
        split: option.splits)
  show ?thesis
    using 1 2 3 4 le ge by blast
qed

theorem query_due_bounds_inclusive_witness:
  "due_date milk = Some mid_january \<and> milk \<in> set (tasks milk_store)
     \<and> milk \<in> set (query None None (Some mid_january) None None milk_store)
     \<and> milk \<in> set (query None None None (Some mid_january) None milk_store)"
  using query_due_bounds_inclusive
    [where t = milk and dd = mid_january and d = mid_january and s = milk_store
       and tx = None and p = None and da = None and db = None and c = None]
  by (simp add: milk_def milk_store_def dt_le_def dt_ge_def)

subsection \<open>Reset\<close>

text \<open>
  Claim C3. \<^verbatim>\<open>reset()\<close> (its \<^verbatim>\<open>os.remove\<close> succeeding) returns normally with an empty
  collection, the counter at 1 and no file left at all. A load right after it gives the empty
  collection and next identifier 1. When the process then exits normally, the exit hook
  runs \<^verbatim>\<open>pickle_tasks\<close> on the empty collection (whether or not that write succeeds), and
  the next process still starts with what a never used store gives: the empty collection
  and next identifier 1.
\<close>

theorem reset_then_load_fresh:
  "fst (reset True s) = Inr ()
   \<and> tasks (snd (reset True s)) = []
   \<and> id_counter (snd (reset True s)) = 1
   \<and> disk (snd (reset True s)) = NoFile
   \<and> tasks (load (snd (reset True s))) = []
   \<and> id_counter (load (snd (reset True s))) = 1
   \<and> tasks (start_process (exit_process io_ok (snd (reset True s)))) = tasks (start_process NoFile)
   \<and> id_counter (start_process (exit_process io_ok (snd (reset True s))))
       = id_counter (start_process NoFile)
   \<and> tasks (start_process NoFile) = []
   \<and> id_counter (start_process NoFile) = 1"
  by (simp add: reset_def load_def start_process_def Tasks_init_def exit_process_def
      pickle_tasks_def Let_def)

theorem reset_then_load_fresh_witness:
  "fst (reset True milk_store) = Inr ()
   \<and> snd (reset True milk_store) = \<lparr>tasks = [], id_counter = 1, disk = NoFile\<rparr>
   \<and> exit_process True (snd (reset True milk_store)) = Pickled [] 0
   \<and> tasks (start_process (exit_process True (snd (reset True milk_store)))) = []
   \<and> id_counter (start_process (exit_process True (snd (reset True milk_store)))) = 1"
  using reset_then_load_fresh [of milk_store True]
  by (simp add: reset_def milk_store_def exit_process_def pickle_tasks_def)

subsection \<open>The due-date parser\<close>

lemma mod7_shift: "(7 * q + x) mod 7 = x mod (7::int)"
  by simp

lemma next_weekday_arith:
  fixes w k :: int
  assumes k: "0 \<le> k" "k < 7"
  defines "d0 \<equiv> (k - (w + 6) mod 7) mod 7"
  defines "d \<equiv> (if d0 = 0 then 7 else d0)"
  shows "0 < d \<and> d \<le> 7 \<and> (w + d + 6) mod 7 = k
    \<and> (\<forall>j. w < j \<and> j < w + d \<longrightarrow> (j + 6) mod 7 \<noteq> k)
    \<and> ((w + 6) mod 7 = k \<longrightarrow> d = 7)"
proof -
  define m where "m = (w + 6) mod 7"
  define q where "q = (w + 6) div 7"
  have m: "0 \<le> m" "m < 7" by (simp_all add: m_def)
  have w6: "w + 6 = 7 * q + m" by (simp add: m_def q_def)
  have d0: "d0 = (if m \<le> k then k - m else k - m + 7)"
  proof (cases "m \<le> k")
    case True
    then have "(k - m) mod 7 = k - m" using k m by (intro mod_pos_pos_trivial) auto
    then show ?thesis using True by (simp add: d0_def m_def)
  next
    case False
    then have "(k - m + 7) mod 7 = k - m + 7" using k m by (intro mod_pos_pos_trivial) auto
    moreover have "(k - m + 7) mod 7 = (k - m) mod 7" by simp
    ultimately show ?thesis using False by (simp add: d0_def m_def)
  qed
  have dval: "d = (if m < k then k - m else k - m + 7)"
    using d0 k m by (auto simp: d_def)
  have pos: "0 < d" "d \<le> 7" using dval k m by (auto split: if_splits)
  have shift: "(w + e + 6) mod 7 = (m + e) mod 7" for e
  proof -
    have "w + e + 6 = 7 * q + (m + e)" using w6 by simp
    then show ?thesis by (simp only: mod7_shift)
  qed
  have hit: "(w + d + 6) mod 7 = k"
  proof (cases "m < k")
    case True
    then have "m + d = k" using dval by simp
    then show ?thesis using shift[of d] k by simp
  next
    case False
    then have "m + d = k + 7" using dval by simp
    then show ?thesis using shift[of d] k by simp
  qed
  have miss: "(j + 6) mod 7 \<noteq> k" if j: "w < j" "j < w + d" for j
  proof
    assume eq: "(j + 6) mod 7 = k"
    define e where "e = j - w"
    have e: "0 < e" "e < d" using j by (simp_all add: e_def)
    have "(m + e) mod 7 = k" using shift[of e] eq by (simp add: e_def)
    then obtain r where r: "m + e = 7 * r + k"
      by (metis mod_eqE mod_mod_trivial mult.commute add.commute k mod_pos_pos_trivial)
    show False
    proof (cases "m < k")
      case True
      then have "m + e < k" "m < m + e" using dval e by auto
      with r k m show False by arith
    next
      case False
      then have "m + e < k + 7" "k < m + e" using dval e by auto
      with r show False by arith
    qed
  qed
  have same: "(w + 6) mod 7 = k \<longrightarrow> d = 7"
    using dval by (auto simp: m_def)
  show ?thesis using pos hit miss same by blast
qed


lemma weekdays_nth:
  assumes "k < 7"
  shows "index_of (weekdays ! k) weekdays = int k
    \<and> weekdays ! k \<in> set weekdays
    \<and> weekdays ! k \<notin> set no_date_tokens
    \<and> weekdays ! k \<noteq> ''today''
    \<and> weekdays ! k \<noteq> ''tomorrow''
    \<and> weekdays ! k \<noteq> []"
proof -
  from assms have "k = 0 \<or> k = 1 \<or> k = 2 \<or> k = 3 \<or> k = 4 \<or> k = 5 \<or> k = 6"
    by arith
  then show ?thesis
    by (elim disjE) (simp_all add: weekdays_def no_date_tokens_def)
qed

lemma strip_Nil: "strip [] = []"
  by (simp add: strip_def)

text \<open>
  Claim C7. For an input that, stripped and lowered, is the \<open>k\<close>-th weekday name (so in any
  letter case), with the clock at least a week before the end of year 9999, \<^verbatim>\<open>parse_due\<close>
  returns a datetime at 23:59:59.000000 whose weekday is \<open>k\<close> and whose date is strictly
  after today and at most 7 days ahead, with no day of that weekday in between: the next
  occurrence. When today is that weekday the date is exactly 7 days ahead.
\<close>

theorem parse_due_weekday_next:
  assumes k: "k < 7"
      and s: "lower (strip raw) = weekdays ! k"
      and clock: "0 < ordinal now" "ordinal now + 7 \<le> MAXORDINAL"
  shows "\<exists>d. parse_due strptime now (Some raw) = Inr (Some d)
          \<and> hour d = 23 \<and> minute d = 59 \<and> second d = 59 \<and> microsecond d = 0
          \<and> weekday d = int k
          \<and> ordinal now < ordinal d \<and> ordinal d \<le> ordinal now + 7
          \<and> (\<forall>j. ordinal now < j \<and> j < ordinal d \<longrightarrow> (j + 6) mod 7 \<noteq> int k)
          \<and> (weekday now = int k \<longrightarrow> ordinal d = ordinal now + 7)"
proof -
  note wk = weekdays_nth[OF k]
  have raw: "raw \<noteq> []"
    using s wk by (auto simp: strip_Nil lower_def)
  define d0 where "d0 = (int k - (ordinal now + 6) mod 7) mod 7"
  define dl where "dl = (if d0 = 0 then 7 else d0)"
  have ar: "0 < dl \<and> dl \<le> 7 \<and> (ordinal now + dl + 6) mod 7 = int k
    \<and> (\<forall>j. ordinal now < j \<and> j < ordinal now + dl \<longrightarrow> (j + 6) mod 7 \<noteq> int k)
    \<and> ((ordinal now + 6) mod 7 = int k \<longrightarrow> dl = 7)"
    unfolding dl_def d0_def using next_weekday_arith[of "int k" "ordinal now"] k by simp
  have ad: "add_days now dl = Inr (now\<lparr>ordinal := ordinal now + dl\<rparr>)"
    using ar clock by (simp add: add_days_def Let_def)
  have p: "parse_due strptime now (Some raw)
             = Inr (Some (end_of_day (now\<lparr>ordinal := ordinal now + dl\<rparr>)))"
  proof -
    have "parse_due strptime now (Some raw)
            = (case add_days now dl of Inl e \<Rightarrow> Inl e | Inr d \<Rightarrow> Inr (Some (end_of_day d)))"
      using raw wk by (simp add: parse_due_def s Let_def weekday_def dl_def d0_def)
    then show ?thesis by (simp add: ad)
  qed
  show ?thesis
    using ar by (simp add: p end_of_day_def weekday_def)
qed

theorem parse_due_weekday_next_witness:
  "lower (strip '' MonDay '') = weekdays ! 0
     \<and> weekday monday_morning = 0
     \<and> parse_due sample_strptime monday_morning (Some '' MonDay '')
         = Inr (Some \<lparr>ordinal = 738893, hour = 23, minute = 59, second = 59, microsecond = 0\<rparr>)"
  using parse_due_weekday_next [of 0 "'' MonDay ''" monday_morning sample_strptime]
  by (auto simp: lower_def lower_char_def char_of_def bit_Suc_0_iff strip_def is_space_def weekdays_def
      monday_morning_def MAXORDINAL_def weekday_def)

lemma parse_due_not_keyword:
  assumes "raw \<noteq> []"
      and "lower (strip raw) \<notin> set no_date_tokens \<union> {''today'', ''tomorrow''} \<union> set weekdays"
  shows "parse_due strptime now (Some raw) = try_formats strptime raw fmts"
  using assms by (simp add: parse_due_def Let_def)

lemma try_formats_three:
  "try_formats strptime raw [f1, f2, f3] =
     (case strptime raw f1 of Some d \<Rightarrow> Inr (Some d)
      | None \<Rightarrow> (case strptime raw f2 of Some d \<Rightarrow> Inr (Some d)
         | None \<Rightarrow> (case strptime raw f3 of Some d \<Rightarrow> Inr (Some d)
            | None \<Rightarrow> Inl (ValueError raw))))"
  by (simp split: option.split)

lemma add_days_in_range:
  assumes "0 < ordinal now" "ordinal now + 7 \<le> MAXORDINAL" "0 < n" "n \<le> 7"
  shows "add_days now n = Inr (now\<lparr>ordinal := ordinal now + n\<rparr>)"
  using assms by (simp add: add_days_def Let_def)

lemma parse_due_keyword_returns:
  assumes clock: "0 < ordinal now" "ordinal now + 7 \<le> MAXORDINAL"
      and kw: "raw = [] \<or> lower (strip raw) \<in> set no_date_tokens \<union> {''today'', ''tomorrow''} \<union> set weekdays"
  shows "\<exists>v. parse_due strptime now (Some raw) = Inr v"
proof -
  define d0 where "d0 = (index_of (lower (strip raw)) weekdays - weekday now) mod 7"
  define dl where "dl = (if d0 = 0 then 7 else d0)"
  have "0 \<le> d0" "d0 < 7" by (simp_all add: d0_def)
  then have dl: "0 < dl" "dl \<le> 7" by (auto simp: dl_def)
  have a1: "add_days now 1 = Inr (now\<lparr>ordinal := ordinal now + 1\<rparr>)"
    using clock by (intro add_days_in_range) auto
  have a2: "add_days now dl = Inr (now\<lparr>ordinal := ordinal now + dl\<rparr>)"
    using clock dl by (intro add_days_in_range) auto
  have "parse_due strptime now (Some raw) =
      (if raw = [] then Inr None
       else if lower (strip raw) \<in> set no_date_tokens then Inr None
       else if lower (strip raw) = ''today'' then Inr (Some (end_of_day now))
       else if lower (strip raw) = ''tomorrow'' then
         (case add_days now 1 of Inl e \<Rightarrow> Inl e | Inr d \<Rightarrow> Inr (Some (end_of_day d)))
       else if lower (strip raw) \<in> set weekdays then
         (case add_days now dl of Inl e \<Rightarrow> Inl e | Inr d \<Rightarrow> Inr (Some (end_of_day d)))
       else try_formats strptime raw fmts)"
    by (simp add: parse_due_def Let_def dl_def d0_def)
  then show ?thesis
    using kw by (auto simp: a1 a2)
qed

text \<open>
  White space beyond ASCII is stripped as well: a weekday name behind a no-break space
  (code point 160) and before a next-line character (code point 133) is a weekday name.
\<close>

lemma parse_due_strips_latin1_space:
  "lower (strip padded_monday) = ''monday''
   \<and> parse_due sample_strptime monday_morning (Some padded_monday)
       = Inr (Some \<lparr>ordinal = 738893, hour = 23, minute = 59, second = 59, microsecond = 0\<rparr>)"
proof -
  have s: "lower (strip padded_monday) = ''monday''" and ne: "padded_monday \<noteq> []"
    by (simp_all add: padded_monday_def lower_def lower_char_def char_of_def bit_Suc_0_iff
        strip_def is_space_def)
  have "add_days monday_morning 7 = Inr (monday_morning\<lparr>ordinal := 738893\<rparr>)"
    by (simp add: add_days_def monday_morning_def MAXORDINAL_def)
  then show ?thesis
    by (simp add: parse_due_def s ne Let_def no_date_tokens_def weekdays_def weekday_def
        monday_morning_def end_of_day_def)
qed

lemma keyword_set:
  "(x \<in> set no_date_tokens \<union> {''today'', ''tomorrow''} \<union> set weekdays)
     = (x \<in> {''none'', ''no'', ''na'', ''n/a'', ''-'', ''today'', ''tomorrow'',
             ''monday'', ''tuesday'', ''wednesday'', ''thursday'', ''friday'', ''saturday'', ''sunday''})"
  unfolding no_date_tokens_def weekdays_def list.set Un_iff insert_iff empty_iff
  by (intro iffI; elim disjE; simp only: simp_thms)

text \<open>
  Claim C8. For an input that is neither empty nor, stripped and lowered as \<^verbatim>\<open>str.strip\<close> and
  \<^verbatim>\<open>str.lower\<close> do, one of the no-date tokens, \<^verbatim>\<open>today\<close>, \<^verbatim>\<open>tomorrow\<close> or a weekday name,
  \<^verbatim>\<open>parse_due\<close> returns the parse of the first of \<^verbatim>\<open>%m/%d/%Y\<close>, \<^verbatim>\<open>%m/%d/%y\<close>, \<^verbatim>\<open>%Y-%m-%d\<close> on
  which \<^verbatim>\<open>strptime\<close> succeeds, a datetime at midnight (\<^verbatim>\<open>strptime\<close> gives these date-only
  formats no time of day: the hypothesis on \<open>strptime\<close>); when none succeeds it raises the
  error that carries the input. With the clock at least a week before the end of year 9999,
  this is the only way \<^verbatim>\<open>parse_due\<close> fails.
\<close>

theorem parse_due_absolute_formats:
  assumes clock: "0 < ordinal now" "ordinal now + 7 \<le> MAXORDINAL"
      and lib: "\<forall>f x d. f \<in> {''%m/%d/%Y'', ''%m/%d/%y'', ''%Y-%m-%d''} \<and> strptime x f = Some d
                  \<longrightarrow> hour d = 0 \<and> minute d = 0 \<and> second d = 0 \<and> microsecond d = 0"
  shows
    "(raw \<noteq> []
        \<and> lower (strip raw) \<notin> {''none'', ''no'', ''na'', ''n/a'', ''-'', ''today'', ''tomorrow'',
             ''monday'', ''tuesday'', ''wednesday'', ''thursday'', ''friday'', ''saturday'', ''sunday''}
      \<longrightarrow> (case find (\<lambda>f. strptime raw f \<noteq> None) [''%m/%d/%Y'', ''%m/%d/%y'', ''%Y-%m-%d''] of
             None \<Rightarrow> parse_due strptime now (Some raw) = Inl (ValueError raw)
           | Some f \<Rightarrow>
               (\<exists>d. strptime raw f = Some d
                  \<and> parse_due strptime now (Some raw) = Inr (Some d)
                  \<and> hour d = 0 \<and> minute d = 0 \<and> second d = 0 \<and> microsecond d = 0)))
     \<and> (\<forall>r e. parse_due strptime now r = Inl e
          \<longrightarrow> (\<exists>x. r = Some x \<and> x \<noteq> []
                 \<and> lower (strip x) \<notin> {''none'', ''no'', ''na'', ''n/a'', ''-'', ''today'', ''tomorrow'',
                      ''monday'', ''tuesday'', ''wednesday'', ''thursday'', ''friday'', ''saturday'', ''sunday''}
                 \<and> strptime x ''%m/%d/%Y'' = None \<and> strptime x ''%m/%d/%y'' = None
                 \<and> strptime x ''%Y-%m-%d'' = None
                 \<and> e = ValueError x))"
proof -
  let ?K = "{''none'', ''no'', ''na'', ''n/a'', ''-'', ''today'', ''tomorrow'',
             ''monday'', ''tuesday'', ''wednesday'', ''thursday'', ''friday'', ''saturday'', ''sunday''}"
  have tf: "parse_due strptime now (Some x) = try_formats strptime x [''%m/%d/%Y'', ''%m/%d/%y'', ''%Y-%m-%d'']"
    if "x \<noteq> []" "lower (strip x) \<notin> ?K" for x
  proof -
    have "lower (strip x) \<notin> set no_date_tokens \<union> {''today'', ''tomorrow''} \<union> set weekdays"
      using that(2) by (simp only: keyword_set not_False_eq_True)
    from parse_due_not_keyword[OF that(1) this] show ?thesis
      by (simp only: fmts_def)
  qed
  have first: "raw \<noteq> [] \<and> lower (strip raw) \<notin> ?K
      \<longrightarrow> (case find (\<lambda>f. strptime raw f \<noteq> None) [''%m/%d/%Y'', ''%m/%d/%y'', ''%Y-%m-%d''] of
             None \<Rightarrow> parse_due strptime now (Some raw) = Inl (ValueError raw)
           | Some f \<Rightarrow>
               (\<exists>d. strptime raw f = Some d
                  \<and> parse_due strptime now (Some raw) = Inr (Some d)
                  \<and> hour d = 0 \<and> minute d = 0 \<and> second d = 0 \<and> microsecond d = 0))"
  proof (intro impI, elim conjE)
    assume a: "raw \<noteq> []" "lower (strip raw) \<notin> ?K"
    show "case find (\<lambda>f. strptime raw f \<noteq> None) [''%m/%d/%Y'', ''%m/%d/%y'', ''%Y-%m-%d''] of
             None \<Rightarrow> parse_due strptime now (Some raw) = Inl (ValueError raw)
           | Some f \<Rightarrow>
               (\<exists>d. strptime raw f = Some d
                  \<and> parse_due strptime now (Some raw) = Inr (Some d)
                  \<and> hour d = 0 \<and> minute d = 0 \<and> second d = 0 \<and> microsecond d = 0)"
      unfolding tf[OF a] try_formats_three using lib
      by (cases "strptime raw ''%m/%d/%Y''"; cases "strptime raw ''%m/%d/%y''";
          cases "strptime raw ''%Y-%m-%d''") auto
  qed
  have second: "\<exists>x. r = Some x \<and> x \<noteq> [] \<and> lower (strip x) \<notin> ?K
                 \<and> strptime x ''%m/%d/%Y'' = None \<and> strptime x ''%m/%d/%y'' = None
                 \<and> strptime x ''%Y-%m-%d'' = None \<and> e = ValueError x"
    if fail: "parse_due strptime now r = Inl e" for r e
  proof (cases r)
    case None
    with fail show ?thesis by (simp add: parse_due_def)
  next
    case (Some x)
    have "\<not> (x = [] \<or> lower (strip x) \<in> set no_date_tokens \<union> {''today'', ''tomorrow''} \<union> set weekdays)"
      using parse_due_keyword_returns[OF clock, of x strptime] fail Some by fastforce
    then have nk: "x \<noteq> []" "lower (strip x) \<notin> ?K"
      by (simp_all only: keyword_set de_Morgan_disj not_False_eq_True)
    have "try_formats strptime x [''%m/%d/%Y'', ''%m/%d/%y'', ''%Y-%m-%d''] = Inl e"
      using tf[OF nk] fail Some by simp
    then have "strptime x ''%m/%d/%Y'' = None \<and> strptime x ''%m/%d/%y'' = None
                 \<and> strptime x ''%Y-%m-%d'' = None \<and> e = ValueError x"
      unfolding try_formats_three by (auto split: option.splits)
    with nk Some show ?thesis by blast
  qed
  show ?thesis using first second by blast
qed

theorem parse_due_absolute_formats_witness:
  "parse_due sample_strptime monday_morning (Some ''2024-01-15'') = Inr (Some mid_january)
     \<and> hour mid_january = 0 \<and> minute mid_january = 0 \<and> second mid_january = 0
     \<and> microsecond mid_january = 0
     \<and> parse_due sample_strptime monday_morning (Some ''soon'') = Inl (ValueError ''soon'')"
proof -
  have clock: "0 < ordinal monday_morning" "ordinal monday_morning + 7 \<le> MAXORDINAL"
    by (simp_all add: monday_morning_def MAXORDINAL_def)
  have lib: "\<forall>f x d. f \<in> {''%m/%d/%Y'', ''%m/%d/%y'', ''%Y-%m-%d''} \<and> sample_strptime x f = Some d
                  \<longrightarrow> hour d = 0 \<and> minute d = 0 \<and> second d = 0 \<and> microsecond d = 0"
    by (auto simp: sample_strptime_def mid_january_def split: if_splits)
  have s1: "lower (strip ''2024-01-15'') = ''2024-01-15''" and s2: "lower (strip ''soon'') = ''soon''"
    by (simp_all add: lower_def lower_char_def char_of_def bit_Suc_0_iff strip_def is_space_def)
  show ?thesis
    using parse_due_absolute_formats [OF clock lib, of "''2024-01-15''"]
      parse_due_absolute_formats [OF clock lib, of "''soon''"]
    by (simp add: s1 s2 sample_strptime_def mid_january_def)
qed

subsection \<open>The store operations\<close>

lemma pickle_tasks_ok:
  "pickle_tasks True s = (Inr (), s\<lparr>disk := Pickled (tasks s) (max_default (map unique_id (tasks s)) 0)\<rparr>)"
  by (simp add: pickle_tasks_def)

lemma pickle_tasks_fail: "pickle_tasks False s = (Inl OSError, s)"
  by (simp add: pickle_tasks_def)

lemma done_first_None: "(done_first now i ts = None) = (\<forall>t\<in>set ts. unique_id t \<noteq> i)"
  by (induction ts) auto

lemma done_first_split:
  assumes "\<forall>u\<in>set pre. unique_id u \<noteq> i" and "unique_id t = i"
  shows "done_first now i (pre @ t # post) =
           (if completed t = None then Some (True, pre @ mark_completed now t # post)
            else Some (False, pre @ t # post))"
  using assms by (induction pre) auto

lemma first_match_split:
  assumes "\<exists>t\<in>set ts. unique_id t = i"
  shows "\<exists>pre t post. ts = pre @ t # post \<and> (\<forall>u\<in>set pre. unique_id u \<noteq> i) \<and> unique_id t = i"
  using assms
proof (induction ts)
  case Nil
  then show ?case by simp
next
  case (Cons a ts)
  show ?case
  proof (cases "unique_id a = i")
    case True
    then have "a # ts = [] @ a # ts \<and> (\<forall>u\<in>set []. unique_id u \<noteq> i) \<and> unique_id a = i"
      by simp
    then show ?thesis by blast
  next
    case False
    with Cons obtain pre t post where
      "ts = pre @ t # post" "\<forall>u\<in>set pre. unique_id u \<noteq> i" "unique_id t = i"
      by auto
    with False have "a # ts = (a # pre) @ t # post \<and> (\<forall>u\<in>set (a # pre). unique_id u \<noteq> i)
        \<and> unique_id t = i"
      by simp
    then show ?thesis by blast
  qed
qed

lemma done_task_missing:
  assumes "\<forall>t\<in>set (tasks s). unique_id t \<noteq> i"
  shows "done_task io now i s = (Inr False, s)"
proof -
  have "done_first now i (tasks s) = None"
    using assms by (simp only: done_first_None)
  then show ?thesis by (simp add: done_task_def)
qed

lemma done_task_already:
  assumes "tasks s = pre @ t # post" "\<forall>u\<in>set pre. unique_id u \<noteq> i" "unique_id t = i"
    and "completed t \<noteq> None"
  shows "done_task io now i s = (Inr True, s)"
proof -
  have "done_first now i (tasks s) = Some (False, pre @ t # post)"
    using assms by (auto simp: done_first_split)
  then show ?thesis by (simp add: done_task_def)
qed

lemma done_task_marks:
  assumes "tasks s = pre @ t # post" "\<forall>u\<in>set pre. unique_id u \<noteq> i" "unique_id t = i"
    and "completed t = None"
  shows "done_task io now i s =
           (if io then
              (Inr True, s\<lparr>tasks := pre @ t\<lparr>completed := Some now\<rparr> # post,
                           disk := Pickled (pre @ t\<lparr>completed := Some now\<rparr> # post)
                             (max_default (map unique_id (pre @ t\<lparr>completed := Some now\<rparr> # post)) 0)\<rparr>)
            else (Inl OSError, s\<lparr>tasks := pre @ t\<lparr>completed := Some now\<rparr> # post\<rparr>))"
proof -
  have "done_first now i (tasks s) = Some (True, pre @ mark_completed now t # post)"
    using assms by (simp add: done_first_split)
  then show ?thesis
    by (simp add: done_task_def pickle_tasks_def mark_completed_def)
qed

text \<open>
  Claim C5. \<^verbatim>\<open>done\<close> (with its write succeeding) returns whether a task with the ID exists.
  At the first task \<open>t\<close> with the ID: when \<open>t\<close> is open, its \<open>completed\<close> becomes the current
  time, nothing else in the collection changes, and the new collection is persisted; when
  \<open>t\<close> is completed already, the call returns true and leaves the whole state, the file
  included, as it was. A second call on the same ID, at any later time, returns what the
  first returned and changes nothing: the timestamp of the first call stays.
\<close>

theorem done_task_complete:
  "fst (done_task True now i s) = Inr (\<exists>t\<in>set (tasks s). unique_id t = i)
   \<and> (\<forall>pre t post.
         tasks s = pre @ t # post \<and> (\<forall>u\<in>set pre. unique_id u \<noteq> i) \<and> unique_id t = i
         \<longrightarrow> (completed t = None
                \<longrightarrow> done_task True now i s =
                      (Inr True,
                       s\<lparr>tasks := pre @ t\<lparr>completed := Some now\<rparr> # post,
                         disk := Pickled (pre @ t\<lparr>completed := Some now\<rparr> # post)
                           (max_default (map unique_id (pre @ t\<lparr>completed := Some now\<rparr> # post)) 0)\<rparr>))
           \<and> (completed t \<noteq> None \<longrightarrow> done_task io now i s = (Inr True, s)))
   \<and> ((\<forall>t\<in>set (tasks s). unique_id t \<noteq> i) \<longrightarrow> done_task io now i s = (Inr False, s))
   \<and> done_task io2 now2 i (snd (done_task True now i s)) = done_task True now i s"
proof -
  have A: "fst (done_task True now i s) = Inr (\<exists>t\<in>set (tasks s). unique_id t = i)"
  proof (cases "\<exists>t\<in>set (tasks s). unique_id t = i")
    case True
    from first_match_split[OF True] obtain pre t post where
      sp: "tasks s = pre @ t # post" "\<forall>u\<in>set pre. unique_id u \<noteq> i" "unique_id t = i"
      by blast
    show ?thesis
      using True done_task_already[OF sp, of True now] done_task_marks[OF sp, of True now]
      by (cases "completed t = None") auto
  next
    case False
    then show ?thesis using done_task_missing[of s i True now] by simp
  qed
  have D: "done_task io2 now2 i (snd (done_task True now i s)) = done_task True now i s"
  proof (cases "\<exists>t\<in>set (tasks s). unique_id t = i")
    case True
    from first_match_split[OF True] obtain pre t post where
      sp: "tasks s = pre @ t # post" "\<forall>u\<in>set pre. unique_id u \<noteq> i" "unique_id t = i"
      by blast
    show ?thesis
    proof (cases "completed t = None")
      case True
      let ?t = "t\<lparr>completed := Some now\<rparr>"
      let ?s = "s\<lparr>tasks := pre @ ?t # post,
                  disk := Pickled (pre @ ?t # post) (max_default (map unique_id (pre @ ?t # post)) 0)\<rparr>"
      have 1: "done_task True now i s = (Inr True, ?s)"
        using done_task_marks[OF sp True, of True now] by simp
      have "done_task io2 now2 i ?s = (Inr True, ?s)"
        by (rule done_task_already[where pre = pre and t = ?t and post = post])
          (use sp in simp_all)
      with 1 show ?thesis by simp
    next
      case False
      then show ?thesis
        using done_task_already[OF sp False] by simp
    qed
  next
    case False
    then show ?thesis using done_task_missing[of s i] by simp
  qed
  have B: "done_task True now i s =
             (Inr True,
              s\<lparr>tasks := pre @ t\<lparr>completed := Some now\<rparr> # post,
                disk := Pickled (pre @ t\<lparr>completed := Some now\<rparr> # post)
                  (max_default (map unique_id (pre @ t\<lparr>completed := Some now\<rparr> # post)) 0)\<rparr>)"
    if "tasks s = pre @ t # post" "\<forall>u\<in>set pre. unique_id u \<noteq> i" "unique_id t = i"
      "completed t = None" for pre t post
    using done_task_marks[OF that, of True now] by simp
  have C: "done_task io now i s = (Inr True, s)"
    if "tasks s = pre @ t # post" "\<forall>u\<in>set pre. unique_id u \<noteq> i" "unique_id t = i"
      "completed t \<noteq> None" for pre t post
    using done_task_already[OF that] .
  have E: "(\<forall>t\<in>set (tasks s). unique_id t \<noteq> i) \<longrightarrow> done_task io now i s = (Inr False, s)"
    using done_task_missing[of s i io now] by blast
  show ?thesis
    using A B C D E by blast
qed


theorem done_task_complete_witness:
  "done_task True monday_noon 1 milk_store =
     (Inr True, \<lparr>tasks = [milk\<lparr>completed := Some monday_noon\<rparr>], id_counter = 2,
                 disk = Pickled [milk\<lparr>completed := Some monday_noon\<rparr>] 1\<rparr>)
   \<and> done_task True mid_january 1 (snd (done_task True monday_noon 1 milk_store)) =
     (Inr True, \<lparr>tasks = [milk\<lparr>completed := Some monday_noon\<rparr>], id_counter = 2,
                 disk = Pickled [milk\<lparr>completed := Some monday_noon\<rparr>] 1\<rparr>)
   \<and> done_task True monday_noon 7 milk_store = (Inr False, milk_store)"
  using done_task_complete [of monday_noon 1 milk_store True True mid_january]
    done_task_complete [of monday_noon 7 milk_store True True mid_january]
  by (simp add: milk_store_def milk_def done_task_def pickle_tasks_def mark_completed_def)

lemma delete_first_None: "(delete_first i ts = None) = (\<forall>t\<in>set ts. unique_id t \<noteq> i)"
  by (induction ts) auto

lemma delete_first_Some:
  "delete_first i ts = Some ts' \<Longrightarrow> Suc (length ts') = length ts \<and> set ts' \<subseteq> set ts"
  by (induction ts arbitrary: ts') (auto split: if_splits)

lemma add_unfold:
  "add io now nm pr due s =
     (let t = fst (Task_init now nm pr due (id_counter s));
          ts = sort_key created_key (tasks s @ [t])
      in if io
         then (Inr t, s\<lparr>tasks := ts, id_counter := id_counter s + 1,
                        disk := Pickled ts (max_default (map unique_id ts) 0)\<rparr>)
         else (Inl OSError, s\<lparr>tasks := ts, id_counter := id_counter s + 1\<rparr>))"
  by (simp add: add_def Task_init_def pickle_tasks_def Let_def)

lemma delete_unfold:
  "delete io i s =
     (case delete_first i (tasks s) of
        None \<Rightarrow> (Inr False, s)
      | Some ts \<Rightarrow>
          if io then (Inr True, s\<lparr>tasks := ts, disk := Pickled ts (max_default (map unique_id ts) 0)\<rparr>)
          else (Inl OSError, s\<lparr>tasks := ts\<rparr>))"
  by (simp add: delete_def pickle_tasks_def split: option.split)

lemma find_first_split:
  assumes "\<forall>u\<in>set pre. \<not> P u" and "P t"
  shows "find P (pre @ t # post) = Some t"
  using assms by (induction pre) auto

text \<open>
  Claim C2, as the code has it. Each of \<^verbatim>\<open>add\<close>, \<^verbatim>\<open>delete\<close> and \<^verbatim>\<open>done\<close> either leaves the whole
  state unchanged and returns (\<^verbatim>\<open>delete\<close> or \<^verbatim>\<open>done\<close> of an unknown ID, \<^verbatim>\<open>done\<close> of a completed
  task), or changes the collection in memory first and then writes it: when the write
  succeeds the file holds the new collection and the call returns, when the write fails
  the call raises, the file is as before, and the change in memory (for \<^verbatim>\<open>add\<close> also the
  advanced counter) stays. Nothing is rolled back.
\<close>

theorem store_ops_without_rollback:
  "(case add io now nm pr due s of
      (r, s') \<Rightarrow>
        tasks s' = sort_key created_key (tasks s @ [fst (Task_init now nm pr due (id_counter s))])
        \<and> tasks s' \<noteq> tasks s \<and> id_counter s' = id_counter s + 1
        \<and> (if io then r = Inr (fst (Task_init now nm pr due (id_counter s))) \<and> saved s'
            else r = Inl OSError \<and> disk s' = disk s))
   \<and> (case delete io i s of
        (r, s') \<Rightarrow>
          (case find (\<lambda>t. unique_id t = i) (tasks s) of
             None \<Rightarrow> r = Inr False \<and> s' = s
           | Some t \<Rightarrow>
               tasks s' \<noteq> tasks s \<and> id_counter s' = id_counter s
               \<and> (if io then r = Inr True \<and> saved s' else r = Inl OSError \<and> disk s' = disk s)))
   \<and> (case done_task io now i s of
        (r, s') \<Rightarrow>
          (case find (\<lambda>t. unique_id t = i) (tasks s) of
             None \<Rightarrow> r = Inr False \<and> s' = s
           | Some t \<Rightarrow>
               if completed t \<noteq> None then r = Inr True \<and> s' = s
               else tasks s' \<noteq> tasks s \<and> id_counter s' = id_counter s
                    \<and> (if io then r = Inr True \<and> saved s'
                        else r = Inl OSError \<and> disk s' = disk s)))"
proof -
  have len: "length (sort_key created_key (tasks s @ [t])) \<noteq> length (tasks s)" for t
    by simp
  then have neq: "sort_key created_key (tasks s @ [t]) \<noteq> tasks s" for t
    by metis
  have A: "case add io now nm pr due s of
      (r, s') \<Rightarrow>
        tasks s' = sort_key created_key (tasks s @ [fst (Task_init now nm pr due (id_counter s))])
        \<and> tasks s' \<noteq> tasks s \<and> id_counter s' = id_counter s + 1
        \<and> (if io then r = Inr (fst (Task_init now nm pr due (id_counter s))) \<and> saved s'
            else r = Inl OSError \<and> disk s' = disk s)"
    using neq by (simp add: add_unfold Let_def saved_def)
  have B: "case delete io i s of
        (r, s') \<Rightarrow>
          (case find (\<lambda>t. unique_id t = i) (tasks s) of
             None \<Rightarrow> r = Inr False \<and> s' = s
           | Some t \<Rightarrow>
               tasks s' \<noteq> tasks s \<and> id_counter s' = id_counter s
               \<and> (if io then r = Inr True \<and> saved s' else r = Inl OSError \<and> disk s' = disk s))"
  proof (cases "delete_first i (tasks s)")
    case None
    then have "find (\<lambda>t. unique_id t = i) (tasks s) = None"
      by (simp add: delete_first_None find_None_iff)
    with None show ?thesis by (simp add: delete_unfold)
  next
    case (Some ts)
    then have "\<not> (\<forall>t\<in>set (tasks s). unique_id t \<noteq> i)"
      using delete_first_None[of i "tasks s"] by simp
    then obtain t where "find (\<lambda>t. unique_id t = i) (tasks s) = Some t"
      by (cases "find (\<lambda>t. unique_id t = i) (tasks s)") (auto simp: find_None_iff)
    moreover have "ts \<noteq> tasks s"
      using delete_first_Some[OF Some] by auto
    ultimately show ?thesis
      using Some by (simp add: delete_unfold saved_def)
  qed
  have C: "case done_task io now i s of
        (r, s') \<Rightarrow>
          (case find (\<lambda>t. unique_id t = i) (tasks s) of
             None \<Rightarrow> r = Inr False \<and> s' = s
           | Some t \<Rightarrow>
               if completed t \<noteq> None then r = Inr True \<and> s' = s
               else tasks s' \<noteq> tasks s \<and> id_counter s' = id_counter s
                    \<and> (if io then r = Inr True \<and> saved s'
                        else r = Inl OSError \<and> disk s' = disk s))"
  proof (cases "\<exists>t\<in>set (tasks s). unique_id t = i")
    case False
    then have "find (\<lambda>t. unique_id t = i) (tasks s) = None"
      by (simp add: find_None_iff)
    then show ?thesis using done_task_missing[of s i io now] False by simp
  next
    case True
    from first_match_split[OF True] obtain pre t post where
      sp: "tasks s = pre @ t # post" "\<forall>u\<in>set pre. unique_id u \<noteq> i" "unique_id t = i"
      by blast
    have f: "find (\<lambda>t. unique_id t = i) (tasks s) = Some t"
      unfolding sp(1) by (rule find_first_split) (use sp in auto)
    show ?thesis
    proof (cases "completed t = None")
      case True
      have "t\<lparr>completed := Some now\<rparr> \<noteq> t"
        using True by (metis option.distinct(1) task.select_convs(2) task.surjective task.update_convs(2))
      then have "pre @ t\<lparr>completed := Some now\<rparr> # post \<noteq> tasks s"
        by (simp add: sp(1))
      then show ?thesis
        using f True done_task_marks[OF sp True, of io now] by (simp add: saved_def)
    next
      case False
      then show ?thesis
        using f done_task_already[OF sp False, of io now] by simp
    qed
  qed
  show ?thesis using A B C by blast
qed

theorem store_ops_without_rollback_witness:
  "add False monday_noon ''Call mom'' 1 None milk_store
     = (Inl OSError, \<lparr>tasks = [milk, call_mom], id_counter = 3, disk = Pickled [milk] 1\<rparr>)
   \<and> add True monday_noon ''Call mom'' 1 None milk_store
     = (Inr call_mom, \<lparr>tasks = [milk, call_mom], id_counter = 3, disk = Pickled [milk, call_mom] 2\<rparr>)
   \<and> delete True 1 milk_store = (Inr True, \<lparr>tasks = [], id_counter = 2, disk = Pickled [] 0\<rparr>)
   \<and> delete False 7 milk_store = (Inr False, milk_store)"
  using store_ops_without_rollback [where io = False and now = monday_noon and nm = "''Call mom''"
      and pr = 1 and due = None and s = milk_store and i = 7]
    store_ops_without_rollback [where io = True and now = monday_noon and nm = "''Call mom''"
      and pr = 1 and due = None and s = milk_store and i = 1]
  by (simp add: add_unfold delete_unfold Task_init_def milk_store_def milk_def call_mom_def
      created_key_def dt_key_def monday_noon_def monday_morning_def Let_def)

text \<open>
  The claim as stated fails: an \<^verbatim>\<open>add\<close> whose write fails raises, yet the new task is in the
  collection in memory while the file still holds the old one.
\<close>

theorem add_mutates_without_persisting:
  "fst (add False monday_noon ''Call mom'' 1 None milk_store) = Inl OSError
   \<and> tasks milk_store = [milk]
   \<and> tasks (snd (add False monday_noon ''Call mom'' 1 None milk_store)) = [milk, call_mom]
   \<and> disk (snd (add False monday_noon ''Call mom'' 1 None milk_store)) = Pickled [milk] 1
   \<and> \<not> saved (snd (add False monday_noon ''Call mom'' 1 None milk_store))"
  by (simp add: add_unfold Task_init_def milk_store_def milk_def call_mom_def saved_def
      created_key_def dt_key_def monday_noon_def monday_morning_def Let_def)

subsection \<open>Identifiers\<close>

lemma add_tasks:
  "tasks (snd (add io now nm pr due s))
     = sort_key created_key (tasks s @ [fst (Task_init now nm pr due (id_counter s))])"
  and add_counter: "id_counter (snd (add io now nm pr due s)) = id_counter s + 1"
  by (simp_all add: add_unfold Let_def)

lemma Task_init_id: "unique_id (fst (Task_init now nm pr due c)) = c"
  by (simp add: Task_init_def)

lemma add_new_ids:
  assumes "ids_below_counter s"
  shows "new_ids s (snd (add io now nm pr due s)) = [id_counter s]"
proof -
  let ?t = "fst (Task_init now nm pr due (id_counter s))"
  let ?P = "\<lambda>t. unique_id t \<notin> set (map unique_id (tasks s))"
  have old: "filter ?P (tasks s) = []"
    by (simp add: filter_empty_conv)
  have new: "?P ?t"
    using assms by (auto simp: ids_below_counter_def list_all_iff Task_init_id)
  have "new_ids s (snd (add io now nm pr due s))
          = map unique_id (filter ?P (sort_key created_key (tasks s @ [?t])))"
    by (simp add: new_ids_def add_tasks filter_map comp_def)
  also have "filter ?P (sort_key created_key (tasks s @ [?t]))
          = sort_key created_key (filter ?P (tasks s @ [?t]))"
    by (rule filter_sort)
  also have "filter ?P (tasks s @ [?t]) = [?t]"
    using old new by simp
  finally show ?thesis by (simp add: Task_init_id)
qed

lemma add_keeps_ids_below:
  assumes "ids_below_counter s"
  shows "ids_below_counter (snd (add io now nm pr due s))"
  using assms
  by (auto simp: ids_below_counter_def list_all_iff add_tasks add_counter Task_init_id)

lemma delete_keeps_ids_below:
  assumes "ids_below_counter s"
  shows "ids_below_counter (snd (delete io i s))"
    and "id_counter (snd (delete io i s)) = id_counter s"
    and "fst (delete io i s) \<noteq> Inr False \<Longrightarrow> i < id_counter s"
proof -
  show "ids_below_counter (snd (delete io i s))"
    using assms delete_first_Some[of i "tasks s"]
    by (auto simp: delete_unfold ids_below_counter_def list_all_iff split: option.split)
  show "id_counter (snd (delete io i s)) = id_counter s"
    by (simp add: delete_unfold split: option.split)
  show "i < id_counter s" if "fst (delete io i s) \<noteq> Inr False"
  proof -
    from that have "delete_first i (tasks s) \<noteq> None"
      by (auto simp: delete_unfold split: option.splits)
    then obtain t where "t \<in> set (tasks s)" "unique_id t = i"
      by (auto simp: delete_first_None)
    then show ?thesis
      using assms by (auto simp: ids_below_counter_def list_all_iff)
  qed
qed

lemma assigned_append: "assigned (xs @ ys) = assigned xs @ assigned ys"
  by (induction xs rule: assigned.induct) auto

lemma assigned_set: "(Assigned i \<in> set es) = (i \<in> set (assigned es))"
  by (induction es rule: assigned.induct) auto

lemma assigned_map: "assigned (map Assigned xs) = xs"
  by (induction xs) auto

lemma run_Add:
  assumes "ids_below_counter s"
  shows "run (Add io now nm pr due # cs) s
           = Assigned (id_counter s) # run cs (snd (add io now nm pr due s))"
  using add_new_ids[OF assms] by (simp add: Let_def)

lemma run_Delete:
  "run (Delete io i # cs) s
     = (if fst (delete io i s) = Inr False then [] else [Removed i]) @ run cs (snd (delete io i s))"
  by (simp add: case_prod_unfold)

lemma run_assigned:
  assumes "ids_below_counter s"
  shows "sorted_wrt (<) (assigned (run cs s))
       \<and> (\<forall>i\<in>set (assigned (run cs s)). id_counter s \<le> i)
       \<and> length (assigned (run cs s)) = length (filter is_Add cs)"
  using assms
proof (induction cs arbitrary: s)
  case Nil
  then show ?case by simp
next
  case (Cons c cs)
  show ?case
  proof (cases c)
    case (Add io now nm pr due)
    let ?s = "snd (add io now nm pr due s)"
    have ih: "sorted_wrt (<) (assigned (run cs ?s))
       \<and> (\<forall>i\<in>set (assigned (run cs ?s)). id_counter ?s \<le> i)
       \<and> length (assigned (run cs ?s)) = length (filter is_Add cs)"
      by (rule Cons.IH) (rule add_keeps_ids_below[OF Cons.prems])
    then show ?thesis
      unfolding Add run_Add[OF Cons.prems] by (auto simp: add_counter)
  next
    case (Delete io i)
    let ?s = "snd (delete io i s)"
    have ih: "sorted_wrt (<) (assigned (run cs ?s))
       \<and> (\<forall>i\<in>set (assigned (run cs ?s)). id_counter ?s \<le> i)
       \<and> length (assigned (run cs ?s)) = length (filter is_Add cs)"
      by (rule Cons.IH) (rule delete_keeps_ids_below(1)[OF Cons.prems])
    then show ?thesis
      unfolding Delete run_Delete
      by (auto simp: assigned_append delete_keeps_ids_below(2)[OF Cons.prems])
  qed
qed

lemma run_removed:
  assumes "ids_below_counter s" and "run cs s = pre @ Removed i # post"
  shows "Assigned i \<notin> set post"
  using assms
proof (induction cs arbitrary: s pre)
  case Nil
  then show ?case by simp
next
  case (Cons c cs)
  show ?case
  proof (cases c)
    case (Add io now nm pr due)
    let ?s = "snd (add io now nm pr due s)"
    from Cons.prems(2) have "Assigned (id_counter s) # run cs ?s = pre @ Removed i # post"
      unfolding Add run_Add[OF Cons.prems(1)] .
    then obtain pre' where "run cs ?s = pre' @ Removed i # post"
      by (cases pre) auto
    with Cons.IH[OF add_keeps_ids_below[OF Cons.prems(1)]] show ?thesis by blast
  next
    case (Delete io j)
    let ?s = "snd (delete io j s)"
    note inv = delete_keeps_ids_below[OF Cons.prems(1), of io j]
    show ?thesis
    proof (cases "fst (delete io j s) = Inr False")
      case True
      with Cons.prems(2) have "run cs ?s = pre @ Removed i # post"
        unfolding Delete run_Delete by simp
      with Cons.IH[OF inv(1)] show ?thesis by blast
    next
      case False
      with Cons.prems(2) have eq: "Removed j # run cs ?s = pre @ Removed i # post"
        unfolding Delete run_Delete by simp
      show ?thesis
      proof (cases pre)
        case Nil
        with eq have ij: "i = j" and post: "post = run cs ?s" by auto
        have "j < id_counter s" using inv(3) False by simp
        moreover have "\<forall>k\<in>set (assigned (run cs ?s)). id_counter ?s \<le> k"
          using run_assigned[OF inv(1)] by blast
        ultimately have "j \<notin> set (assigned (run cs ?s))"
          using inv(2) by auto
        then show ?thesis by (simp add: ij post assigned_set)
      next
        case (Cons e pre')
        with eq have "run cs ?s = pre' @ Removed i # post" by simp
        with Cons.IH[OF inv(1)] show ?thesis by blast
      qed
    qed
  qed
qed

lemma fold_max_ge_init: "(y::int) \<le> fold max xs y"
proof (induction xs arbitrary: y)
  case Nil
  show ?case by simp
next
  case (Cons a xs)
  from Cons.IH[of "max a y"] show ?case by simp
qed

lemma fold_max_ge_mem: "x \<in> set xs \<Longrightarrow> (x::int) \<le> fold max xs y"
proof (induction xs arbitrary: y)
  case Nil
  then show ?case by simp
next
  case (Cons a xs)
  from Cons.prems consider "x = a" | "x \<in> set xs" by auto
  then show ?case
  proof cases
    case 1
    from fold_max_ge_init[of "max a y" xs] show ?thesis by (simp add: 1)
  next
    case 2
    from Cons.IH[OF 2] show ?thesis by simp
  qed
qed

lemma max_default_ge: "x \<in> set xs \<Longrightarrow> x \<le> max_default xs d"
  by (cases xs) (auto simp: fold_max_ge_init fold_max_ge_mem)

lemma start_process_ids_below:
  "ids_below_counter (start_process NoFile)"
  "ids_below_counter (start_process Unreadable)"
  "ids_below_counter (start_process (Pickled ts (max_default (map unique_id ts) 0)))"
proof -
  have "unique_id t < max_default (map unique_id ts) 0 + 1" if "t \<in> set ts" for t
  proof -
    have "unique_id t \<le> max_default (map unique_id ts) 0"
      using that by (intro max_default_ge) simp
    then show ?thesis by simp
  qed
  then show "ids_below_counter (start_process (Pickled ts (max_default (map unique_id ts) 0)))"
    by (simp add: ids_below_counter_def list_all_iff start_process_def Tasks_init_def load_def
        less_max_iff_disj)
  show "ids_below_counter (start_process NoFile)" "ids_below_counter (start_process Unreadable)"
    by (simp_all add: ids_below_counter_def start_process_def Tasks_init_def load_def)
qed

text \<open>
  Claim C4. From a state whose identifiers are all below the counter (every state a process
  reaches from a file the program wrote, see \<open>start_process_ids_below\<close>), for every sequence
  of \<^verbatim>\<open>add\<close> and \<^verbatim>\<open>delete\<close> calls and whatever the outcome of each write: every \<^verbatim>\<open>add\<close> assigns
  one identifier, the identifiers assigned are strictly increasing in call order, hence
  pairwise distinct, and after a \<^verbatim>\<open>delete\<close> has removed the task with identifier \<open>i\<close> no later
  \<^verbatim>\<open>add\<close> assigns \<open>i\<close>.
\<close>

theorem add_ids_strictly_increasing:
  assumes "ids_below_counter s"
  shows "sorted_wrt (<) (assigned (run cs s))
       \<and> distinct (assigned (run cs s))
       \<and> length (assigned (run cs s)) = length (filter is_Add cs)
       \<and> (\<forall>pre i post. run cs s = pre @ Removed i # post \<longrightarrow> Assigned i \<notin> set post)"
proof -
  have "sorted_wrt (<) (assigned (run cs s))"
    and "length (assigned (run cs s)) = length (filter is_Add cs)"
    using run_assigned[OF assms, of cs] by blast+
  moreover from this(1) have "distinct (assigned (run cs s))"
    by (simp add: strict_sorted_iff)
  ultimately show ?thesis
    using run_removed[OF assms] by blast
qed


theorem add_ids_strictly_increasing_witness:
  "ids_below_counter milk_store
   \<and> run [Add True monday_noon ''Call mom'' 1 None, Delete True 2,
           Add False mid_january ''Pay rent'' 3 None, Add True mid_january ''Water plants'' 1 None]
        milk_store
       = [Assigned 2, Removed 2, Assigned 3, Assigned 4]
   \<and> assigned (run [Add True monday_noon ''Call mom'' 1 None, Delete True 2,
           Add False mid_january ''Pay rent'' 3 None, Add True mid_january ''Water plants'' 1 None]
        milk_store) = [2, 3, 4]"
proof -
  have inv: "ids_below_counter milk_store"
    by (simp add: ids_below_counter_def milk_store_def milk_def)
  show ?thesis
    using add_ids_strictly_increasing [OF inv,
        of "[Add True monday_noon ''Call mom'' 1 None, Delete True 2,
           Add False mid_january ''Pay rent'' 3 None, Add True mid_january ''Water plants'' 1 None]"]
    by (simp add: ids_below_counter_def new_ids_def add_unfold delete_unfold Task_init_def milk_store_def milk_def
        created_key_def dt_key_def monday_noon_def monday_morning_def mid_january_def Let_def)
qed

subsection \<open>Sorting for display\<close>

lemma due_key_le: "(due_key t \<le> due_key u) = due_order t u"
  by (auto simp: due_key_def due_order_def)

lemma nodue_key_le: "(nodue_key t \<le> nodue_key u) = nodue_order t u"
  by (auto simp: nodue_key_def nodue_order_def)

lemma sorted_wrt_sort_key: "sorted_wrt (\<lambda>x y. f x \<le> f y) (sort_key f xs)"
  using sorted_sort_key[of f xs] by (simp only: sorted_map)

text \<open>
  Claim C9. \<^verbatim>\<open>_sort_open\<close> returns a rearrangement of its input in which every task with a due
  date comes before every task without; the tasks with a due date are in ascending order
  of (due date, priority, creation time), the tasks without in ascending order of (priority,
  creation time). The function works on lists it builds from its argument, so the store
  is not part of it and is left as it is.
\<close>

theorem sort_open_order:
  "sort_open ts = filter (\<lambda>t. due_date t \<noteq> None) (sort_open ts)
                  @ filter (\<lambda>t. due_date t = None) (sort_open ts)
   \<and> sorted_wrt due_order (filter (\<lambda>t. due_date t \<noteq> None) (sort_open ts))
   \<and> sorted_wrt nodue_order (filter (\<lambda>t. due_date t = None) (sort_open ts))
   \<and> mset (sort_open ts) = mset ts"
proof -
  let ?A = "sort_key due_key (filter (\<lambda>t. due_date t \<noteq> None) ts)"
  let ?B = "sort_key nodue_key (filter (\<lambda>t. \<not> due_date t \<noteq> None) ts)"
  have so: "sort_open ts = ?A @ ?B"
    by (simp add: sort_open_def)
  have fA: "filter (\<lambda>t. due_date t \<noteq> None) ?A = ?A" "filter (\<lambda>t. due_date t = None) ?A = []"
    by (auto simp: filter_empty_conv filter_id_conv)
  have fB: "filter (\<lambda>t. due_date t \<noteq> None) ?B = []" "filter (\<lambda>t. due_date t = None) ?B = ?B"
    by (auto simp: filter_empty_conv filter_id_conv)
  have parts: "filter (\<lambda>t. due_date t \<noteq> None) (sort_open ts) = ?A"
    "filter (\<lambda>t. due_date t = None) (sort_open ts) = ?B"
    by (simp_all only: so filter_append fA fB append_Nil append_Nil2)
  have sA: "sorted_wrt due_order ?A"
    using sorted_wrt_sort_key[of due_key] by (simp only: due_key_le)
  have sB: "sorted_wrt nodue_order ?B"
    using sorted_wrt_sort_key[of nodue_key] by (simp only: nodue_key_le)
  have ms: "mset (sort_open ts) = mset ts"
    by (simp add: so)
  show ?thesis
    using so sA sB ms by (simp only: parts) simp
qed

theorem sort_open_order_witness:
  "sort_open [call_mom, milk, pay_rent] = [pay_rent, milk, call_mom]
   \<and> due_order pay_rent milk"
  using sort_open_order [of "[call_mom, milk, pay_rent]"]
  by (simp add: sort_open_def due_key_def nodue_key_def dt_key_def call_mom_def milk_def
      pay_rent_def monday_noon_def monday_morning_def mid_january_def due_order_def)

subsection \<open>The result of \<^verbatim>\<open>query\<close>\<close>

lemma same_case_map:
  "list_all2 (\<lambda>a b. lower_char a = lower_char b) u x = (map lower_char u = map lower_char x)"
  by (simp add: list_all2_eq[of "map lower_char u"] list_all2_map1 list_all2_map2)

lemma str_in_lower: "str_in (lower x) (lower y) = occurs_ignoring_case x y"
proof
  assume "str_in (lower x) (lower y)"
  then obtain ps' ss' where h: "map lower_char y = ps' @ (map lower_char x @ ss')"
    by (auto simp: str_in_def sublist_def lower_def)
  from h[unfolded map_eq_append_conv] obtain ps r where
    y1: "y = ps @ r" and r: "map lower_char x @ ss' = map lower_char r"
    by blast
  from r[symmetric, unfolded map_eq_append_conv] obtain u ss where
    "r = u @ ss" and "map lower_char u = map lower_char x"
    by metis
  with y1 have "y = ps @ u @ ss \<and> list_all2 (\<lambda>a b. lower_char a = lower_char b) u x"
    by (simp add: same_case_map)
  then show "occurs_ignoring_case x y"
    unfolding occurs_ignoring_case_def by blast
next
  assume "occurs_ignoring_case x y"
  then obtain ps u ss where "y = ps @ u @ ss" and "map lower_char u = map lower_char x"
    unfolding occurs_ignoring_case_def same_case_map by blast
  then have "lower y = lower ps @ lower x @ lower ss"
    by (simp add: lower_def)
  then show "str_in (lower x) (lower y)"
    by (auto simp: str_in_def sublist_def)
qed

lemma list_ex_lowers:
  "list_ex (\<lambda>l. str_in l (lower (name t))) (map lower xs)
     = (\<exists>x\<in>set xs. occurs_ignoring_case x (name t))"
  by (simp add: list_ex_iff str_in_lower)

text \<open>
  Claim C6, as the code has it. \<^verbatim>\<open>query\<close> returns, in the order of the collection, exactly the
  tasks that satisfy all the filters given: one of the texts, lowered by \<^verbatim>\<open>str.lower\<close>, is a
  contiguous part of the lowered name, which for strings of code points below 256 says that
  the text occurs in the name up to letter case, character by character; an empty list of
  texts is no constraint; the priority is the given one when that is 1, 2 or 3, and any
  otherwise; the due date is present and not after \<^verbatim>\<open>due_before\<close>; the due date is present
  and not before \<^verbatim>\<open>due_after\<close>; the task is completed or not as \<^verbatim>\<open>completed\<close> says. An absent
  parameter is no constraint.
\<close>

theorem query_conjunction_of_filters:
  "query texts pr due_before due_after compl s
     = filter (query_filter texts pr due_before due_after compl) (tasks s)"
  unfolding query_def query_texts_filter query_priority_filter query_due_before_filter
    query_due_after_filter query_completed_filter filter_filter
  by (rule filter_cong[OF refl]) (auto simp: query_filter_def list_ex_lowers split: option.splits)

theorem query_conjunction_of_filters_witness:
  "query (Some [''bread'', ''MILK'']) (Some 2) (Some mid_january) None (Some False)
      \<lparr>tasks = [milk, call_mom, pay_rent], id_counter = 4, disk = NoFile\<rparr> = [milk]
   \<and> occurs_ignoring_case ''MILK'' ''Buy milk''
   \<and> query (Some [[CHR 0xE9]]) None None None None
      \<lparr>tasks = [milk, cafe], id_counter = 5, disk = NoFile\<rparr> = [cafe]"
proof -
  have "str_in (lower ''MILK'') (lower ''Buy milk'')"
    by (simp add: str_in_def lower_def lower_char_def char_of_def bit_Suc_0_iff sublist_code prefix_code)
  then have occ: "occurs_ignoring_case ''MILK'' ''Buy milk''"
    by (simp only: str_in_lower)
  have yes: "query_filter (Some [''bread'', ''MILK'']) (Some 2) (Some mid_january) None (Some False) milk"
    using occ by (simp add: query_filter_def milk_def dt_le_def)
  have no: "\<not> query_filter (Some [''bread'', ''MILK'']) (Some 2) (Some mid_january) None (Some False) call_mom"
    "\<not> query_filter (Some [''bread'', ''MILK'']) (Some 2) (Some mid_january) None (Some False) pay_rent"
    by (simp_all add: query_filter_def call_mom_def pay_rent_def)
  have "str_in (lower [CHR 0xE9]) (lower (''CAF'' @ [CHR 0xC9]))"
    "\<not> str_in (lower [CHR 0xE9]) (lower ''Buy milk'')"
    by (simp_all add: str_in_def lower_def lower_char_def char_of_def bit_Suc_0_iff sublist_code
        prefix_code)
  then have acc: "occurs_ignoring_case [CHR 0xE9] (''CAF'' @ [CHR 0xC9])"
    "\<not> occurs_ignoring_case [CHR 0xE9] ''Buy milk''"
    by (simp_all only: str_in_lower not_False_eq_True)
  have yes2: "query_filter (Some [[CHR 0xE9]]) None None None None cafe"
    and no2: "\<not> query_filter (Some [[CHR 0xE9]]) None None None None milk"
    using acc by (simp_all add: query_filter_def cafe_def milk_def)
  show ?thesis
    using query_conjunction_of_filters [of "Some [''bread'', ''MILK'']" "Some 2" "Some mid_january"
        None "Some False" "\<lparr>tasks = [milk, call_mom, pay_rent], id_counter = 4, disk = NoFile\<rparr>"]
      query_conjunction_of_filters [of "Some [[CHR 0xE9]]" None None None None
        "\<lparr>tasks = [milk, cafe], id_counter = 5, disk = NoFile\<rparr>"]
    by (simp add: yes no occ yes2 no2)
qed

text \<open>
  With "one of the given texts occurs" applied to the empty list of texts no task would
  match; \<^verbatim>\<open>query(texts=[])\<close> returns every task.
\<close>

theorem query_empty_texts_is_no_filter:
  "query (Some []) None None None None milk_store = [milk]
   \<and> filter (query_filter_any (Some []) None None None None) (tasks milk_store) = []"
  by (simp add: query_def query_texts_def query_stage_None query_filter_any_def milk_store_def)

subsection \<open>Saving and loading\<close>

text \<open>
  Saving a collection that is in creation order and loading it gives the same list back.
  The counter after the load is the larger of the process's counter and one more than the
  largest identifier among the tasks saved: in the process that saved, it is the counter as
  it was; in a new process, whose counter starts at 1, it is one more than the largest
  identifier still in the collection.
\<close>

lemma save_load_roundtrip:
  assumes "sorted (map created_key (tasks s))"
  shows "tasks (load (snd (pickle_tasks True s))) = tasks s"
    and "id_counter (load (snd (pickle_tasks True s)))
           = max (id_counter s) (max_default (map unique_id (tasks s)) 0 + 1)"
    and "tasks (start_process (exit_process True s)) = tasks s"
    and "id_counter (start_process (exit_process True s))
           = max 1 (max_default (map unique_id (tasks s)) 0 + 1)"
  using assms
  by (simp_all add: pickle_tasks_def load_def start_process_def Tasks_init_def exit_process_def
      sort_key_id_if_sorted)

lemma fold_max_less: "(fold max xs y < (c::int)) = (y < c \<and> (\<forall>x\<in>set xs. x < c))"
  by (induction xs arbitrary: y) auto

lemma save_load_same_process:
  assumes "ids_below_counter s" and "1 \<le> id_counter s"
  shows "id_counter (load (snd (pickle_tasks True s))) = id_counter s"
proof -
  have "max_default (map unique_id (tasks s)) 0 < id_counter s"
    using assms
    by (cases "tasks s") (auto simp: ids_below_counter_def list_all_iff fold_max_less)
  then show ?thesis
    by (simp add: pickle_tasks_def load_def)
qed

text \<open>
  Claim C1. The collection survives the round trip, the counter does not when the task
  with the highest identifier was deleted before the save: here identifiers 1 and 2 have
  been assigned and task 2 deleted, so the next identifier is 3; \<^verbatim>\<open>pickle_tasks\<close> writes
  \<^verbatim>\<open>last_id = 1\<close>, the maximum over the tasks left, and the next process starts with counter
  2 and gives identifier 2 to its next task, where the process that saved gives 3.
\<close>

theorem reload_reuses_deleted_id:
  "after_delete = \<lparr>tasks = [milk], id_counter = 3, disk = Pickled [milk] 1\<rparr>
   \<and> start_process (exit_process True after_delete)
       = \<lparr>tasks = [milk], id_counter = 2, disk = Pickled [milk] 1\<rparr>
   \<and> unique_id call_mom = 2
   \<and> map unique_id (tasks (snd (add True mid_january ''Pay rent'' 3 None
         (start_process (exit_process True after_delete))))) = [1, 2]
   \<and> map unique_id (tasks (snd (add True mid_january ''Pay rent'' 3 None after_delete))) = [1, 3]"
  by (simp add: after_delete_def add_unfold delete_unfold Task_init_def milk_store_def milk_def
      call_mom_def created_key_def dt_key_def monday_noon_def monday_morning_def mid_january_def
      start_process_def Tasks_init_def load_def exit_process_def pickle_tasks_def Let_def)

end
